theory Spec2Isabelle
  imports Complex_Main "HOL-Library.Char_ord" "HOL-Library.List_Lexorder"
begin

section \<open>Text and characters\<close>

text \<open>
  Python strings are modelled as \<open>string\<close>, a list of 8-bit characters, read as the
  UTF-8 bytes of the text. Only the ASCII letters have a case in this model: a byte
  above 127 is left alone by \<open>lower\<close> and is never matched by the pattern
  \<^verbatim>\<open>[a-zA-Z]+\<close>. A field that is absent from a JSON object, or \<^verbatim>\<open>null\<close>, is
  \<open>None\<close>.
\<close>

definition is_upper :: "char \<Rightarrow> bool" where
  "is_upper c = (65 \<le> (of_char c :: nat) \<and> (of_char c :: nat) \<le> 90)"

definition is_lower :: "char \<Rightarrow> bool" where
  "is_lower c = (97 \<le> (of_char c :: nat) \<and> (of_char c :: nat) \<le> 122)"

definition is_alpha :: "char \<Rightarrow> bool" where
  "is_alpha c = (is_upper c \<or> is_lower c)"

definition lower_char :: "char \<Rightarrow> char" where
  "lower_char c = (if is_upper c then char_of ((of_char c :: nat) + 32) else c)"

definition lower :: "string \<Rightarrow> string" where
  "lower s = map lower_char s"

text \<open>\<^verbatim>\<open>x or ""\<close> on an optional string.\<close>

definition or_empty :: "string option \<Rightarrow> string" where
  "or_empty t = (case t of None \<Rightarrow> [] | Some s \<Rightarrow> s)"

section \<open>Keyword extraction (load_data.py)\<close>

definition STOPWORDS :: "string set" where
  "STOPWORDS = set
    [''the'', ''a'', ''an'', ''and'', ''or'', ''but'', ''in'', ''on'', ''at'', ''to'', ''for'',
     ''of'', ''with'', ''by'', ''from'', ''up'', ''about'', ''into'', ''through'', ''during'',
     ''is'', ''are'', ''was'', ''were'', ''be'', ''been'', ''being'', ''have'', ''has'', ''had'',
     ''do'', ''does'', ''did'', ''will'', ''would'', ''could'', ''should'', ''may'', ''might'',
     ''can'', ''this'', ''that'', ''these'', ''those'', ''we'', ''our'', ''use'', ''using'',
     ''based'', ''approach'', ''method'', ''paper'', ''propose'', ''proposed'', ''show'']"

text \<open>
  \<^verbatim>\<open>re.findall(r"[a-zA-Z]+", s)\<close>: the maximal runs of ASCII letters of \<open>s\<close>, left to
  right. \<open>cur\<close> is the run being read.
\<close>

fun findall_alpha :: "string \<Rightarrow> string \<Rightarrow> string list" where
  "findall_alpha cur [] = (if cur = [] then [] else [cur])"
| "findall_alpha cur (c # cs) =
     (if is_alpha c then findall_alpha (cur @ [c]) cs
      else (if cur = [] then [] else [cur]) @ findall_alpha [] cs)"

definition tokenize :: "string option \<Rightarrow> string list" where
  "tokenize text =
     filter (\<lambda>t. t \<notin> STOPWORDS \<and> length t > 2) (findall_alpha [] (lower (or_empty text)))"

text \<open>
  \<^verbatim>\<open>Counter(tokens)\<close>: a dictionary in insertion order, kept as an association list. A
  token seen again has its count raised where it stands; a new token goes to the end.
\<close>

fun counter_add :: "string \<Rightarrow> (string \<times> nat) list \<Rightarrow> (string \<times> nat) list" where
  "counter_add w [] = [(w, 1)]"
| "counter_add w ((v, c) # rest) =
     (if v = w then (v, c + 1) # rest else (v, c) # counter_add w rest)"

definition Counter :: "string list \<Rightarrow> (string \<times> nat) list" where
  "Counter ts = foldl (\<lambda>cnt w. counter_add w cnt) [] ts"

text \<open>
  \<^verbatim>\<open>cnt.most_common(k)\<close> is \<^verbatim>\<open>heapq.nlargest(k, cnt.items(), key=count)\<close>, which is
  \<^verbatim>\<open>sorted(cnt.items(), key=count, reverse=True)[:k]\<close>: a stable sort by descending
  count. \<open>sort_key\<close> is a stable insertion sort; the key is the negated count.
\<close>

definition most_common :: "nat \<Rightarrow> (string \<times> nat) list \<Rightarrow> (string \<times> nat) list" where
  "most_common k cnt = take k (sort_key (\<lambda>(w, c). - int c) cnt)"

definition top_k_keywords_from_abstract :: "string option \<Rightarrow> nat \<Rightarrow> string list" where
  "top_k_keywords_from_abstract abstract k =
     map fst (most_common k (Counter (tokenize abstract)))"

text \<open>The frequency order of the keyword list, over the token list \<open>ts\<close>.\<close>

definition first_seen :: "string list \<Rightarrow> string \<Rightarrow> nat" where
  "first_seen ts w = length (takeWhile (\<lambda>x. x \<noteq> w) ts)"

definition ranks_before :: "string list \<Rightarrow> string \<Rightarrow> string \<Rightarrow> bool" where
  "ranks_before ts a b =
     (count_list ts a > count_list ts b \<or>
      (count_list ts a = count_list ts b \<and> first_seen ts a < first_seen ts b))"


text \<open>The distinct elements of a list in the order of their first occurrence.\<close>

definition firsts :: "'a list \<Rightarrow> 'a list" where
  "firsts ts = rev (remdups (rev ts))"

section \<open>Papers and derived items (load_data.py, main)\<close>

text \<open>
  A source record is a JSON object read with \<^verbatim>\<open>p.get(...)\<close>; every field may be
  absent or \<^verbatim>\<open>null\<close>.
\<close>

record paper =
  p_arxiv_id :: "string option"
  p_title :: "string option"
  p_authors :: "string list option"
  p_abstract :: "string option"
  p_categories :: "string list option"
  p_published :: "string option"

datatype item_type = PAPER_DETAIL | CATEGORY_ITEM | AUTHOR_ITEM | KEYWORD_ITEM

text \<open>
  A stored item is a dictionary. \<open>PK\<close> and \<open>SK\<close> are always there. The index keys
  \<open>GSI1PK\<close> ... \<open>GSI3SK\<close>, and the attributes \<open>authors\<close>, \<open>abstract\<close> and
  \<open>keywords'\<close>, are \<open>None\<close> when the dictionary has no such key. The attributes
  \<open>arxiv_id\<close>, \<open>title\<close> and \<open>published\<close> are in every item, and \<open>None\<close> is the
  value \<^verbatim>\<open>None\<close> copied from the source record.
\<close>

record item =
  PK :: string
  SK :: string
  GSI1PK :: "string option"
  GSI1SK :: "string option"
  GSI2PK :: "string option"
  GSI2SK :: "string option"
  GSI3PK :: "string option"
  GSI3SK :: "string option"
  arxiv_id :: "string option"
  title :: "string option"
  authors :: "string list option"
  abstract :: "string option"
  categories :: "string list"
  keywords' :: "string list option"
  published :: "string option"
  item_type :: item_type

text \<open>An optional string inside an f-string: \<^verbatim>\<open>None\<close> is printed as \<^verbatim>\<open>None\<close>.\<close>

definition fmt :: "string option \<Rightarrow> string" where
  "fmt v = (case v of None \<Rightarrow> ''None'' | Some s \<Rightarrow> s)"

definition iso_to_date_str :: "string \<Rightarrow> string" where
  "iso_to_date_str iso_ts = take 10 iso_ts"

text \<open>\<^verbatim>\<open>iso_to_date_str(published_iso) if published_iso else "0000-00-00"\<close>: a missing
  and an empty timestamp are both falsy.\<close>

definition published_date :: "paper \<Rightarrow> string" where
  "published_date p =
     (case p_published p of
        None \<Rightarrow> ''0000-00-00''
      | Some iso_ts \<Rightarrow> if iso_ts = [] then ''0000-00-00'' else iso_to_date_str iso_ts)"

definition authors_of :: "paper \<Rightarrow> string list" where
  "authors_of p = (case p_authors p of None \<Rightarrow> [] | Some xs \<Rightarrow> xs)"

definition categories_of :: "paper \<Rightarrow> string list" where
  "categories_of p = (case p_categories p of None \<Rightarrow> [] | Some xs \<Rightarrow> xs)"

definition abstract_of :: "paper \<Rightarrow> string" where
  "abstract_of p = or_empty (p_abstract p)"

definition keywords_of :: "paper \<Rightarrow> string list" where
  "keywords_of p = top_k_keywords_from_abstract (Some (abstract_of p)) 10"

text \<open>The sort key \<^verbatim>\<open>f"{published_date}#{arxiv_id}"\<close>.\<close>

definition date_id :: "paper \<Rightarrow> string" where
  "date_id p = published_date p @ ''#'' @ fmt (p_arxiv_id p)"

definition detail_item :: "paper \<Rightarrow> item" where
  "detail_item p =
     \<lparr>PK = ''PAPER#'' @ fmt (p_arxiv_id p), SK = ''DETAIL'',
      GSI1PK = None, GSI1SK = None, GSI2PK = None, GSI2SK = None,
      GSI3PK = Some (''PAPER#'' @ fmt (p_arxiv_id p)), GSI3SK = Some ''DETAIL'',
      arxiv_id = p_arxiv_id p, title = p_title p, authors = Some (authors_of p),
      abstract = Some (abstract_of p), categories = categories_of p,
      keywords' = Some (keywords_of p), published = p_published p,
      item_type = PAPER_DETAIL\<rparr>"

definition cat_item :: "paper \<Rightarrow> string \<Rightarrow> item" where
  "cat_item p cat =
     \<lparr>PK = ''CATEGORY#'' @ cat, SK = date_id p,
      GSI1PK = None, GSI1SK = None, GSI2PK = None, GSI2SK = None,
      GSI3PK = None, GSI3SK = None,
      arxiv_id = p_arxiv_id p, title = p_title p, authors = Some (authors_of p),
      abstract = Some (abstract_of p), categories = categories_of p,
      keywords' = Some (keywords_of p), published = p_published p,
      item_type = CATEGORY_ITEM\<rparr>"

definition author_item :: "paper \<Rightarrow> string \<Rightarrow> item" where
  "author_item p au =
     \<lparr>PK = ''AUTHORITEM#'' @ au, SK = date_id p,
      GSI1PK = Some (''AUTHOR#'' @ au), GSI1SK = Some (date_id p),
      GSI2PK = None, GSI2SK = None, GSI3PK = None, GSI3SK = None,
      arxiv_id = p_arxiv_id p, title = p_title p, authors = None,
      abstract = None, categories = categories_of p,
      keywords' = None, published = p_published p,
      item_type = AUTHOR_ITEM\<rparr>"

definition kw_item :: "paper \<Rightarrow> string \<Rightarrow> item" where
  "kw_item p kw =
     \<lparr>PK = ''KEYWORDITEM#'' @ kw, SK = date_id p,
      GSI1PK = None, GSI1SK = None,
      GSI2PK = Some (''KW#'' @ kw), GSI2SK = Some (date_id p),
      GSI3PK = None, GSI3SK = None,
      arxiv_id = p_arxiv_id p, title = p_title p, authors = None,
      abstract = None, categories = categories_of p,
      keywords' = None, published = p_published p,
      item_type = KEYWORD_ITEM\<rparr>"

text \<open>The keyword loop skips a keyword that is already in \<open>seen_kw\<close>.\<close>

fun kw_items :: "paper \<Rightarrow> string set \<Rightarrow> string list \<Rightarrow> item list" where
  "kw_items p seen_kw [] = []"
| "kw_items p seen_kw (kw # kws) =
     (if kw \<in> seen_kw then kw_items p seen_kw kws
      else kw_item p kw # kw_items p (insert kw seen_kw) kws)"

text \<open>What one pass of the loop over \<open>papers\<close> appends to \<open>all_items\<close>.\<close>

definition author_items :: "paper \<Rightarrow> item list" where
  "author_items p = map (author_item p) (authors_of p)"

definition project :: "paper \<Rightarrow> item list" where
  "project p =
     detail_item p # map (cat_item p) (categories_of p) @ author_items p
       @ kw_items p {} (keywords_of p)"

definition all_items :: "paper list \<Rightarrow> item list" where
  "all_items papers = concat (map project papers)"

text \<open>The primary key pair of an item, and the items of one variant.\<close>

definition primary_key :: "item \<Rightarrow> string \<times> string" where
  "primary_key it = (PK it, SK it)"

definition items_of_type :: "item_type \<Rightarrow> item list \<Rightarrow> item list" where
  "items_of_type ty its = filter (\<lambda>it. item_type it = ty) its"

section \<open>The table and the store writer (load_data.py)\<close>

text \<open>
  The table is the store's, reached through boto3. It is modelled as the list of its
  items; the primary key pair (\<open>PK\<close>, \<open>SK\<close>) identifies an item. Writing an item
  whose key pair is already in the table replaces that item where it stands, and
  writing a new key pair adds the item.
\<close>

type_synonym table = "item list"

fun put_item :: "item \<Rightarrow> table \<Rightarrow> table" where
  "put_item it [] = [it]"
| "put_item it (x # xs) =
     (if primary_key x = primary_key it then it # xs else x # put_item it xs)"

text \<open>
  \<^verbatim>\<open>put_batch\<close> hands the items one by one to a batch writer opened with
  \<^verbatim>\<open>overwrite_by_pkeys=['PK','SK']\<close>: the writer drops a buffered item when a later
  item has the same key pair and sends the buffer in requests of at most 25 items, each
  of which replaces by key. The table afterwards is the one reached by writing the
  items in order.
\<close>

definition put_batch :: "table \<Rightarrow> item list \<Rightarrow> table" where
  "put_batch t its = foldl (\<lambda>t it. put_item it t) t its"

text \<open>\<^verbatim>\<open>range(0, n, 25)\<close> and the slices \<^verbatim>\<open>all_items[i:i+25]\<close>.\<close>

definition range25 :: "nat \<Rightarrow> nat list" where
  "range25 n = map (\<lambda>j. 25 * j) [0 ..< (n + 24) div 25]"

definition batches :: "'a list \<Rightarrow> 'a list list" where
  "batches xs = map (\<lambda>i. take 25 (drop i xs)) (range25 (length xs))"

definition write_all :: "table \<Rightarrow> item list \<Rightarrow> table" where
  "write_all t its = foldl put_batch t (batches its)"

text \<open>
  The summary that \<^verbatim>\<open>main\<close> prints. \<^verbatim>\<open>counts\<close> is raised by one with every item
  appended, under the name of the item's variant. The ratio is a float in the source;
  here it is the exact quotient. Python's \<^verbatim>\<open>/\<close> raises on a zero divisor.
\<close>

datatype py_error = ZeroDivisionError | IndexError

definition truediv :: "nat \<Rightarrow> nat \<Rightarrow> py_error + rat" where
  "truediv a b = (if b = 0 then Inl ZeroDivisionError else Inr (of_nat a / of_nat b))"

record summary =
  total_papers :: nat
  total_items :: nat
  denorm_factor :: rat
  category_items :: nat
  author_items_count :: nat
  keyword_items :: nat
  paper_detail_items :: nat

definition main :: "paper list \<Rightarrow> table \<Rightarrow> py_error + (table \<times> summary)" where
  "main papers t =
     (let its = all_items papers;
          n_papers = length papers;
          n_detail = length (items_of_type PAPER_DETAIL its);
          n_cat = length (items_of_type CATEGORY_ITEM its);
          n_author = length (items_of_type AUTHOR_ITEM its);
          n_kw = length (items_of_type KEYWORD_ITEM its);
          t' = write_all t its;
          n_items = n_detail + n_cat + n_author + n_kw
      in case (if n_papers \<noteq> 0 then truediv n_items n_papers else Inr 0) of
           Inl e \<Rightarrow> Inl e
         | Inr factor \<Rightarrow>
             Inr (t', \<lparr>total_papers = n_papers, total_items = n_items,
                      denorm_factor = factor, category_items = n_cat,
                      author_items_count = n_author, keyword_items = n_kw,
                      paper_detail_items = n_detail\<rparr>))"

section \<open>The store's query operation (boto3 \<^verbatim>\<open>Table.query\<close>)\<close>

text \<open>
  The store is external to the repository; the executors use it as follows, and that
  much of it is modelled. A query names the table or one of the three indexes, fixes
  the partition key, may bound the sort key on both sides (\<^verbatim>\<open>between\<close>, inclusive),
  and asks for ascending or descending sort-key order. An item is in an index when it
  has both key attributes of the index. String keys compare byte by byte. The answer
  comes in pages: a page holds at most \<open>page_size\<close> items (and at most \<^verbatim>\<open>Limit\<close>),
  and carries \<^verbatim>\<open>LastEvaluatedKey\<close>, the primary key of its last item, when the page
  is full; the next page starts behind the item of \<^verbatim>\<open>ExclusiveStartKey\<close>. A
  \<^verbatim>\<open>Limit\<close> below 1 and a \<^verbatim>\<open>between\<close> whose upper bound is below its lower bound
  are rejected. Among items of equal sort key in an index the store's order is not
  fixed; the model takes the table's order.
\<close>

datatype index_name = MainTable | AuthorIndex | KeywordIndex | PaperIdIndex

definition index_pk :: "index_name \<Rightarrow> item \<Rightarrow> string option" where
  "index_pk ix it =
     (case ix of MainTable \<Rightarrow> Some (PK it) | AuthorIndex \<Rightarrow> GSI1PK it
               | KeywordIndex \<Rightarrow> GSI2PK it | PaperIdIndex \<Rightarrow> GSI3PK it)"

definition index_sk :: "index_name \<Rightarrow> item \<Rightarrow> string option" where
  "index_sk ix it =
     (case ix of MainTable \<Rightarrow> Some (SK it) | AuthorIndex \<Rightarrow> GSI1SK it
               | KeywordIndex \<Rightarrow> GSI2SK it | PaperIdIndex \<Rightarrow> GSI3SK it)"

record store =
  items :: table
  page_size :: nat

datatype store_error = ParamValidationError | ValidationException

record query_request =
  IndexName :: index_name
  pk_eq :: string
  sk_between :: "(string \<times> string) option"
  ScanIndexForward :: bool
  Limit :: "int option"
  ExclusiveStartKey :: "(string \<times> string) option"

record query_response =
  Items :: "item list"
  LastEvaluatedKey :: "(string \<times> string) option"

definition in_range :: "(string \<times> string) option \<Rightarrow> string \<Rightarrow> bool" where
  "in_range b sk = (case b of None \<Rightarrow> True | Some (lo, hi) \<Rightarrow> lo \<le> sk \<and> sk \<le> hi)"

definition selected :: "query_request \<Rightarrow> item \<Rightarrow> bool" where
  "selected q it =
     (index_pk (IndexName q) it = Some (pk_eq q) \<and>
      (case index_sk (IndexName q) it of None \<Rightarrow> False | Some sk \<Rightarrow> in_range (sk_between q) sk))"

definition index_order :: "query_request \<Rightarrow> table \<Rightarrow> item list" where
  "index_order q t =
     (let ms = sort_key (\<lambda>it. or_empty (index_sk (IndexName q) it)) (filter (selected q) t)
      in if ScanIndexForward q then ms else rev ms)"

definition after_start :: "(string \<times> string) option \<Rightarrow> item list \<Rightarrow> item list" where
  "after_start k ms =
     (case k of None \<Rightarrow> ms | Some key \<Rightarrow> drop 1 (dropWhile (\<lambda>it. primary_key it \<noteq> key) ms))"

definition rejected :: "query_request \<Rightarrow> store_error option" where
  "rejected q =
     (if (case Limit q of None \<Rightarrow> False | Some l \<Rightarrow> l < 1) then Some ParamValidationError
      else if (case sk_between q of None \<Rightarrow> False | Some (lo, hi) \<Rightarrow> hi < lo)
        then Some ValidationException
      else None)"

definition table_query :: "store \<Rightarrow> query_request \<Rightarrow> store_error + query_response" where
  "table_query st q =
     (case rejected q of
        Some err \<Rightarrow> Inl err
      | None \<Rightarrow>
          let rest = after_start (ExclusiveStartKey q) (index_order q (items st));
              n = (case Limit q of None \<Rightarrow> page_size st | Some l \<Rightarrow> min (nat l) (page_size st));
              page = take n rest
          in Inr \<lparr>Items = page,
                  LastEvaluatedKey =
                    (if page \<noteq> [] \<and> n \<le> length rest then Some (primary_key (last page))
                     else None)\<rparr>)"

section \<open>The query executors (query_papers.py)\<close>

text \<open>
  The loop \<^verbatim>\<open>while True: ... if not lek: break\<close> of the two paginating executors. It
  ends when a page comes without \<^verbatim>\<open>LastEvaluatedKey\<close>; a store error propagates.
\<close>

partial_function (option) paginate ::
  "store \<Rightarrow> query_request \<Rightarrow> item list \<Rightarrow> (store_error + item list) option" where
  "paginate st kwargs acc =
     (case table_query st kwargs of
        Inl err \<Rightarrow> Some (Inl err)
      | Inr response \<Rightarrow>
          (case LastEvaluatedKey response of
             None \<Rightarrow> Some (Inr (acc @ Items response))
           | Some lek \<Rightarrow>
               paginate st (kwargs\<lparr>ExclusiveStartKey := Some lek\<rparr>) (acc @ Items response)))"

declare paginate.simps [code]



definition get_paper_by_id :: "store \<Rightarrow> string \<Rightarrow> store_error + item option" where
  "get_paper_by_id st i =
     map_sum id (\<lambda>response. case Items response of [] \<Rightarrow> None | x # _ \<Rightarrow> Some x)
       (table_query st
          \<lparr>IndexName = PaperIdIndex, pk_eq = ''PAPER#'' @ i, sk_between = None,
           ScanIndexForward = True, Limit = None, ExclusiveStartKey = None\<rparr>)"

definition date_range_request :: "string \<Rightarrow> string \<Rightarrow> string \<Rightarrow> query_request" where
  "date_range_request category start_date end_date =
     \<lparr>IndexName = MainTable, pk_eq = ''CATEGORY#'' @ category,
      sk_between = Some (start_date @ ''#'', end_date @ ''#zzzzzzz''),
      ScanIndexForward = True, Limit = None, ExclusiveStartKey = None\<rparr>"

definition query_papers_in_date_range ::
  "store \<Rightarrow> string \<Rightarrow> string \<Rightarrow> string \<Rightarrow> (store_error + item list) option" where
  "query_papers_in_date_range st category start_date end_date =
     paginate st (date_range_request category start_date end_date) []"

definition query_papers_by_keyword :: "store \<Rightarrow> string \<Rightarrow> int \<Rightarrow> store_error + item list" where
  "query_papers_by_keyword st keyword limit =
     map_sum id Items
       (table_query st
          \<lparr>IndexName = KeywordIndex, pk_eq = ''KW#'' @ lower keyword, sk_between = None,
           ScanIndexForward = False, Limit = Some limit, ExclusiveStartKey = None\<rparr>)"

text \<open>
  What the date-range executor is to return: the category's items whose sort key lies
  between \<open><start>#\<close> and \<open><end>#zzzzzzz\<close>, both included, in ascending sort-key
  order.
\<close>

definition date_range_items :: "table \<Rightarrow> string \<Rightarrow> string \<Rightarrow> string \<Rightarrow> item list" where
  "date_range_items t category start_date end_date =
     sort_key SK
       (filter (\<lambda>it. PK it = ''CATEGORY#'' @ category \<and>
                     start_date @ ''#'' \<le> SK it \<and> SK it \<le> end_date @ ''#zzzzzzz'') t)"

text \<open>
  Identifiers that are empty or start with a byte below \<open>z\<close>. Every arXiv identifier
  is one: the current form starts with a digit, the older form with the name of an
  archive, and no archive name starts with \<open>z\<close>.
\<close>

definition id_starts_below_z :: "string \<Rightarrow> bool" where
  "id_starts_below_z i = (case i of [] \<Rightarrow> True | c # _ \<Rightarrow> c < CHR ''z'')"

text \<open>The request of \<open>get_paper_by_id\<close>, and the key pair of a detail item.\<close>

definition detail_key :: "string \<Rightarrow> string \<times> string" where
  "detail_key i = (''PAPER#'' @ i, ''DETAIL'')"

definition id_request :: "string \<Rightarrow> query_request" where
  "id_request i =
     \<lparr>IndexName = PaperIdIndex, pk_eq = ''PAPER#'' @ i, sk_between = None,
      ScanIndexForward = True, Limit = None, ExclusiveStartKey = None\<rparr>"

section \<open>The read API (api_server.py)\<close>






datatype body =
    Error_body string
  | Recent_body string "item list" nat
  | Author_body string "item list" nat
  | Keyword_body string "item list" nat
  | Search_body string string string "item list" nat
  | Paper_body item

record response =
  status :: nat
  payload :: body





















text \<open>Sample records.\<close>

definition two_cased_authors :: paper where
  "two_cased_authors =
     \<lparr>p_arxiv_id = Some ''2401.00001'', p_title = Some ''T'',
      p_authors = Some [''Ada Lovelace'', ''ada lovelace''], p_abstract = None,
      p_categories = Some [''cs.AI''], p_published = Some ''2024-01-31T00:00:00Z''\<rparr>"

definition repeated_author :: paper where
  "repeated_author =
     \<lparr>p_arxiv_id = Some ''2401.00001'', p_title = Some ''T'',
      p_authors = Some [''Ada Lovelace'', ''Ada Lovelace''], p_abstract = None,
      p_categories = Some [''cs.AI''], p_published = Some ''2024-01-31T00:00:00Z''\<rparr>"

definition undated :: paper where
  "undated =
     \<lparr>p_arxiv_id = Some ''2401.00001'', p_title = Some ''T'',
      p_authors = Some [''Ada Lovelace''], p_abstract = Some ''Graph nets and graph models'',
      p_categories = Some [''cs.AI''], p_published = None\<rparr>"

definition january_paper :: paper where
  "january_paper =
     \<lparr>p_arxiv_id = Some ''2401.00001'', p_title = Some ''T'',
      p_authors = Some [''Ada Lovelace''], p_abstract = Some ''Graph Networks'',
      p_categories = Some [''cs.AI''], p_published = Some ''2024-01-31T23:59:59Z''\<rparr>"

definition february_paper :: paper where
  "february_paper =
     \<lparr>p_arxiv_id = Some ''2402.00002'', p_title = Some ''U'',
      p_authors = Some [''Ada Lovelace''], p_abstract = Some ''Graph Networks'',
      p_categories = Some [''cs.AI''], p_published = Some ''2024-02-01T00:00:00Z''\<rparr>"

definition sample_store :: store where
  "sample_store =
     \<lparr>items = write_all [] (all_items [january_paper, february_paper]), page_size = 1\<rparr>"




section \<open>Properties of the keyword extractor\<close>

lemma lower_char_not_upper: "\<not> is_upper (lower_char c)"
  by (auto simp: lower_char_def is_upper_def)

lemma alpha_lower_char: "is_alpha (lower_char c) \<Longrightarrow> is_lower (lower_char c)"
  using lower_char_not_upper by (simp add: is_alpha_def)

lemma findall_alpha_chars:
  "t \<in> set (findall_alpha cur s) \<Longrightarrow> set t \<subseteq> set cur \<union> {c \<in> set s. is_alpha c}"
  by (induction cur s rule: findall_alpha.induct) (auto split: if_splits)

lemma tokenize_lower: "t \<in> set (tokenize text) \<Longrightarrow> list_all is_lower t"
proof -
  assume "t \<in> set (tokenize text)"
  then have "t \<in> set (findall_alpha [] (lower (or_empty text)))"
    by (simp add: tokenize_def)
  then have "set t \<subseteq> {c \<in> set (lower (or_empty text)). is_alpha c}"
    using findall_alpha_chars by fastforce
  then show ?thesis
    using alpha_lower_char by (auto simp: list_all_iff lower_def)
qed


lemma firsts_snoc: "firsts (ts @ [w]) = (if w \<in> set ts then firsts ts else firsts ts @ [w])"
  by (simp add: firsts_def)

lemma set_firsts: "set (firsts ts) = set ts"
  by (simp add: firsts_def)

lemma distinct_firsts: "distinct (firsts ts)"
  by (simp add: firsts_def)

lemma counter_add_map:
  "distinct ks \<Longrightarrow> counter_add w (map (\<lambda>v. (v, f v)) ks) =
     (if w \<in> set ks then map (\<lambda>v. (v, if v = w then f v + 1 else f v)) ks
      else map (\<lambda>v. (v, f v)) ks @ [(w, 1)])"
  by (induction ks) auto

lemma Counter_snoc: "Counter (ts @ [w]) = counter_add w (Counter ts)"
  by (simp add: Counter_def)

lemma Counter_closed: "Counter ts = map (\<lambda>v. (v, count_list ts v)) (firsts ts)"
proof (induction ts rule: rev_induct)
  case Nil
  show ?case by (simp add: Counter_def firsts_def)
next
  case (snoc w ts)
  show ?case
  proof (cases "w \<in> set ts")
    case True
    then show ?thesis
      by (simp add: Counter_snoc snoc counter_add_map distinct_firsts set_firsts firsts_snoc)
  next
    case False
    then have "count_list ts w = 0" by (simp add: count_list_0_iff)
    with False show ?thesis
      by (auto simp add: Counter_snoc snoc counter_add_map distinct_firsts set_firsts firsts_snoc)
  qed
qed

lemma first_seen_snoc_in: "a \<in> set ts \<Longrightarrow> first_seen (ts @ [w]) a = first_seen ts a"
  by (induction ts) (auto simp: first_seen_def)

lemma first_seen_lt: "a \<in> set ts \<Longrightarrow> first_seen ts a < length ts"
  by (induction ts) (auto simp: first_seen_def)

lemma first_seen_snoc_new: "w \<notin> set ts \<Longrightarrow> first_seen (ts @ [w]) w = length ts"
  by (induction ts) (auto simp: first_seen_def)

lemma sorted_firsts: "sorted_wrt (\<lambda>a b. first_seen ts a < first_seen ts b) (firsts ts)"
proof (induction ts rule: rev_induct)
  case Nil
  show ?case by (simp add: firsts_def)
next
  case (snoc w ts)
  have keep: "sorted_wrt (\<lambda>a b. first_seen (ts @ [w]) a < first_seen (ts @ [w]) b) (firsts ts)"
    by (rule sorted_wrt_mono_rel [OF _ snoc]) (simp add: set_firsts first_seen_snoc_in)
  show ?case
  proof (cases "w \<in> set ts")
    case True
    then show ?thesis using keep by (simp add: firsts_snoc)
  next
    case False
    then show ?thesis using keep
      by (simp add: firsts_snoc sorted_wrt_append set_firsts first_seen_snoc_in
          first_seen_snoc_new first_seen_lt)
  qed
qed

lemma insort_key_tie:
  "sorted_wrt (\<lambda>a b. f a < f b \<or> (f a = f b \<and> Q a b)) L \<Longrightarrow> \<forall>y\<in>set L. Q x y \<Longrightarrow>
   sorted_wrt (\<lambda>a b. f a < f b \<or> (f a = f b \<and> Q a b)) (insort_key f x L)"
  for f :: "'a \<Rightarrow> int"
proof (induction L)
  case Nil
  then show ?case by simp
next
  case (Cons y ys)
  show ?case
  proof (cases "f x \<le> f y")
    case True
    then show ?thesis using Cons.prems by (auto simp: set_insort_key)
  next
    case False
    then show ?thesis using Cons by (auto simp: set_insort_key)
  qed
qed

lemma sort_key_tie:
  "sorted_wrt Q xs \<Longrightarrow> sorted_wrt (\<lambda>a b. f a < f b \<or> (f a = f b \<and> Q a b)) (sort_key f xs)"
  for f :: "'a \<Rightarrow> int"
proof (induction xs)
  case Nil
  then show ?case by simp
next
  case (Cons x xs)
  then show ?case by (simp add: insort_key_tie)
qed

lemma sorted_wrt_irrefl_distinct: "sorted_wrt R xs \<Longrightarrow> (\<And>x. \<not> R x x) \<Longrightarrow> distinct xs"
  by (induction xs) auto

lemma ranked_all:
  "sorted_wrt (ranks_before ts)
     (map fst (sort_key (\<lambda>(w, c). - int c) (Counter ts)))"
proof -
  let ?f = "\<lambda>(w, c). - int c" and ?Q = "\<lambda>a b. first_seen ts (fst a) < first_seen ts (fst b)"
  let ?L = "sort_key ?f (Counter ts)"
  have "sorted_wrt ?Q (Counter ts)"
    using sorted_firsts [of ts] by (simp add: Counter_closed sorted_wrt_map)
  then have s: "sorted_wrt (\<lambda>a b. ?f a < ?f b \<or> (?f a = ?f b \<and> ?Q a b)) ?L"
    by (rule sort_key_tie)
  have cnt: "snd p = count_list ts (fst p)" if "p \<in> set ?L" for p
    using that by (auto simp: Counter_closed)
  have "sorted_wrt (\<lambda>a b. ranks_before ts (fst a) (fst b)) ?L"
  proof (rule sorted_wrt_mono_rel [OF _ s])
    fix x y
    assume x: "x \<in> set ?L" and y: "y \<in> set ?L"
      and r: "?f x < ?f y \<or> (?f x = ?f y \<and> ?Q x y)"
    from cnt [OF x] cnt [OF y] r show "ranks_before ts (fst x) (fst y)"
      by (cases x; cases y) (auto simp: ranks_before_def)
  qed
  then show ?thesis by (simp add: sorted_wrt_map)
qed

lemma ranks_irrefl: "\<not> ranks_before ts a a"
  by (simp add: ranks_before_def)

lemma top_k_set: "set (top_k_keywords_from_abstract ab k) \<subseteq> set (tokenize ab)"
proof -
  have "set (map fst (sort_key (\<lambda>(w, c). - int c) (Counter (tokenize ab)))) = set (tokenize ab)"
    by (simp add: Counter_closed set_firsts image_image)
  then show ?thesis
    unfolding top_k_keywords_from_abstract_def most_common_def
    by (metis set_take_subset take_map)
qed

lemma top_k_ranked:
  "sorted_wrt (ranks_before (tokenize ab)) (top_k_keywords_from_abstract ab k)"
  unfolding top_k_keywords_from_abstract_def most_common_def take_map [symmetric]
  by (rule sorted_wrt_take) (rule ranked_all)



section \<open>Properties of the item projector\<close>

lemma kw_items_subset: "set (kw_items p seen kws) \<subseteq> kw_item p ` set kws"
  by (induction p seen kws rule: kw_items.induct) auto

lemma kw_items_type: "it \<in> set (kw_items p seen kws) \<Longrightarrow> item_type it = KEYWORD_ITEM"
  using kw_items_subset [of p seen kws] by (auto simp: kw_item_def)

lemma filter_none: "(\<And>x. x \<in> set xs \<Longrightarrow> \<not> P x) \<Longrightarrow> filter P xs = []"
  by (induction xs) auto

lemma filter_all: "(\<And>x. x \<in> set xs \<Longrightarrow> P x) \<Longrightarrow> filter P xs = xs"
  by (induction xs) auto

lemma author_items_of_project:
  "items_of_type AUTHOR_ITEM (project p) = author_items p"
proof -
  have 1: "items_of_type AUTHOR_ITEM (map (cat_item p) cs) = []" for cs
    unfolding items_of_type_def by (rule filter_none) (auto simp: cat_item_def)
  have 2: "items_of_type AUTHOR_ITEM (kw_items p {} ks) = []" for ks
    unfolding items_of_type_def by (rule filter_none) (auto dest: kw_items_type)
  have 3: "items_of_type AUTHOR_ITEM (author_items p) = author_items p"
    unfolding items_of_type_def by (rule filter_all) (auto simp: author_items_def author_item_def)
  have 4: "items_of_type ty (xs @ ys) = items_of_type ty xs @ items_of_type ty ys" for ty xs ys
    by (simp add: items_of_type_def)
  have 5: "items_of_type AUTHOR_ITEM (detail_item p # xs) = items_of_type AUTHOR_ITEM xs" for xs
    by (simp add: items_of_type_def detail_item_def)
  show ?thesis
    by (simp add: project_def 1 2 3 4 5)
qed

lemma project_sort_keys:
  "it \<in> set (project p) \<Longrightarrow>
   (if item_type it = PAPER_DETAIL then SK it = ''DETAIL''
    else SK it = date_id p \<and>
         (item_type it = AUTHOR_ITEM \<longrightarrow> GSI1SK it = Some (SK it)) \<and>
         (item_type it = KEYWORD_ITEM \<longrightarrow> GSI2SK it = Some (SK it)))"
proof -
  have k: "x \<in> set (kw_items p {} ks) \<Longrightarrow>
      SK x = date_id p \<and> GSI2SK x = Some (date_id p) \<and> item_type x = KEYWORD_ITEM" for x ks
    using kw_items_subset [of p "{}" ks] by (auto simp: kw_item_def)
  assume "it \<in> set (project p)"
  then consider "it = detail_item p" | "it \<in> cat_item p ` set (categories_of p)"
    | "it \<in> author_item p ` set (authors_of p)" | "it \<in> set (kw_items p {} (keywords_of p))"
    by (auto simp: project_def author_items_def)
  then show ?thesis
  proof cases
    case 1 then show ?thesis by (simp add: detail_item_def)
  next
    case 2 then show ?thesis by (auto simp: cat_item_def)
  next
    case 3 then show ?thesis by (auto simp: author_item_def)
  next
    case 4 then show ?thesis using k by auto
  qed
qed

text \<open>
  C7. For every paper whose publication timestamp is missing (absent, \<^verbatim>\<open>null\<close> or
  empty), projection succeeds, and every derived item whose sort key has a date segment
  (the category, author and keyword items, and the index sort keys of the latter two)
  has the sort key \<open>0000-00-00#<id>\<close>. The detail item has the constant sort key
  \<open>DETAIL\<close>, as for every paper.
\<close>

theorem missing_date_sentinel:
  "p_published p = None \<or> p_published p = Some [] \<Longrightarrow>
   project p \<noteq> [] \<and>
   list_all (\<lambda>it. if item_type it = PAPER_DETAIL then SK it = ''DETAIL''
                  else SK it = ''0000-00-00#'' @ fmt (p_arxiv_id p) \<and>
                       (item_type it = AUTHOR_ITEM \<longrightarrow> GSI1SK it = Some (SK it)) \<and>
                       (item_type it = KEYWORD_ITEM \<longrightarrow> GSI2SK it = Some (SK it)))
     (project p)"
proof -
  assume a: "p_published p = None \<or> p_published p = Some []"
  then have d: "date_id p = ''0000-00-00#'' @ fmt (p_arxiv_id p)"
    by (auto simp: date_id_def published_date_def)
  have "project p \<noteq> []" by (simp add: project_def)
  moreover have "list_all (\<lambda>it. if item_type it = PAPER_DETAIL then SK it = ''DETAIL''
                  else SK it = ''0000-00-00#'' @ fmt (p_arxiv_id p) \<and>
                       (item_type it = AUTHOR_ITEM \<longrightarrow> GSI1SK it = Some (SK it)) \<and>
                       (item_type it = KEYWORD_ITEM \<longrightarrow> GSI2SK it = Some (SK it)))
     (project p)"
    unfolding list_all_iff d [symmetric] using project_sort_keys by blast
  ultimately show ?thesis by blast
qed

theorem missing_date_sentinel_witness:
  "list_all (\<lambda>it. if item_type it = PAPER_DETAIL then SK it = ''DETAIL''
                  else SK it = ''0000-00-00#'' @ fmt (p_arxiv_id undated) \<and>
                       (item_type it = AUTHOR_ITEM \<longrightarrow> GSI1SK it = Some (SK it)) \<and>
                       (item_type it = KEYWORD_ITEM \<longrightarrow> GSI2SK it = Some (SK it)))
     (project undated)"
proof -
  have h: "p_published undated = None \<or> p_published undated = Some []"
    by (simp add: undated_def)
  from missing_date_sentinel [OF h] show ?thesis by (rule conjunct2)
qed

section \<open>Properties of the store writer and the loader\<close>

lemma put_item_same_key:
  "primary_key a = primary_key b \<Longrightarrow> put_item b (put_item a t) = put_item b t"
  by (induction t) auto

lemma put_item_keys: "primary_key ` set (put_item a t) = insert (primary_key a) (primary_key ` set t)"
  by (induction t) auto

lemma put_item_commute:
  "primary_key a \<noteq> primary_key b \<Longrightarrow> primary_key a \<in> primary_key ` set t \<Longrightarrow>
   put_item a (put_item b t) = put_item b (put_item a t)"
  by (induction t) auto

lemma put_batch_Cons: "put_batch t (a # as) = put_batch (put_item a t) as"
  by (simp add: put_batch_def)

lemma put_batch_snoc: "put_batch t (as @ [a]) = put_item a (put_batch t as)"
  by (simp add: put_batch_def)

lemma put_batch_append: "put_batch t (as @ bs) = put_batch (put_batch t as) bs"
  by (simp add: put_batch_def)

lemma put_batch_Nil: "put_batch t [] = t"
  by (simp add: put_batch_def)

lemma put_batch_keys: "primary_key ` set (put_batch t as) = primary_key ` set as \<union> primary_key ` set t"
  by (induction as arbitrary: t) (auto simp: put_batch_Cons put_batch_Nil put_item_keys)

lemma put_batch_absorb:
  "primary_key a \<in> primary_key ` set t \<Longrightarrow> primary_key a \<in> primary_key ` set as \<Longrightarrow>
   put_batch (put_item a t) as = put_batch t as"
proof (induction as arbitrary: t)
  case Nil
  then show ?case by simp
next
  case (Cons b bs)
  show ?case
  proof (cases "primary_key b = primary_key a")
    case True
    then show ?thesis by (simp add: put_batch_Cons put_item_same_key)
  next
    case False
    with Cons.prems have in_bs: "primary_key a \<in> primary_key ` set bs" by auto
    from False have ne: "primary_key a \<noteq> primary_key b" by auto
    have "put_item b (put_item a t) = put_item a (put_item b t)"
      by (rule put_item_commute [OF ne Cons.prems(1), symmetric])
    moreover have "primary_key a \<in> primary_key ` set (put_item b t)"
      using Cons.prems(1) by (simp add: put_item_keys)
    ultimately show ?thesis
      using Cons.IH [of "put_item b t"] in_bs by (simp add: put_batch_Cons)
  qed
qed

lemma put_batch_push:
  "primary_key a \<in> primary_key ` set t \<Longrightarrow> primary_key a \<notin> primary_key ` set as \<Longrightarrow>
   put_batch (put_item a t) as = put_item a (put_batch t as)"
proof (induction as arbitrary: t)
  case Nil
  then show ?case by (simp add: put_batch_def)
next
  case (Cons b bs)
  then have ne: "primary_key a \<noteq> primary_key b" and nin: "primary_key a \<notin> primary_key ` set bs"
    by auto
  have "put_item b (put_item a t) = put_item a (put_item b t)"
    by (rule put_item_commute [OF ne Cons.prems(1), symmetric])
  moreover have "primary_key a \<in> primary_key ` set (put_item b t)"
    using Cons.prems(1) by (simp add: put_item_keys)
  ultimately show ?case
    using Cons.IH [of "put_item b t"] nin by (simp add: put_batch_Cons)
qed

lemma put_item_idem: "put_item a (put_item a t) = put_item a t"
  by (simp add: put_item_same_key)

lemma put_batch_idem: "put_batch (put_batch t as) as = put_batch t as"
proof (induction as arbitrary: t)
  case Nil
  show ?case by (simp add: put_batch_def)
next
  case (Cons a as)
  let ?s1 = "put_item a t"
  have k1: "primary_key a \<in> primary_key ` set ?s1" by (simp add: put_item_keys)
  have k2: "primary_key a \<in> primary_key ` set (put_batch ?s1 as)"
    using k1 by (simp add: put_batch_keys)
  have "put_batch (put_item a (put_batch ?s1 as)) as = put_batch (put_batch ?s1 as) as"
  proof (cases "primary_key a \<in> primary_key ` set as")
    case True
    then show ?thesis using k2 by (simp add: put_batch_absorb)
  next
    case False
    have "put_batch ?s1 as = put_batch (put_item a ?s1) as" by (simp add: put_item_idem)
    also have "\<dots> = put_item a (put_batch ?s1 as)" using k1 False by (rule put_batch_push)
    finally show ?thesis by simp
  qed
  then show ?case by (simp add: put_batch_Cons Cons.IH)
qed

lemma concat_slices: "concat (map (\<lambda>j. take m (drop (m * j) xs)) [0 ..< k]) = take (m * k) xs"
proof (induction k)
  case 0
  show ?case by simp
next
  case (Suc k)
  have "take (m * k) xs @ take m (drop (m * k) xs) = take (m * k + m) xs"
    by (simp add: take_add)
  with Suc show ?case by (simp add: add.commute)
qed

lemma concat_batches: "concat (batches xs) = xs"
proof -
  have "length xs \<le> 25 * ((length xs + 24) div 25)" by presburger
  then show ?thesis
    using concat_slices [of 25 xs "(length xs + 24) div 25"]
    by (simp add: batches_def range25_def comp_def)
qed

lemma batches_alt: "batches xs = map (\<lambda>j. take 25 (drop (25 * j) xs)) [0 ..< (length xs + 24) div 25]"
  by (simp add: batches_def range25_def comp_def)

lemma batches_bounded: "b \<in> set (batches xs) \<Longrightarrow> length b \<le> 25 \<and> b \<noteq> []"
proof -
  assume "b \<in> set (batches xs)"
  then have "b \<in> (\<lambda>j. take 25 (drop (25 * j) xs)) ` {0 ..< (length xs + 24) div 25}"
    unfolding batches_alt by simp
  then obtain j where j: "j < (length xs + 24) div 25" and b: "b = take 25 (drop (25 * j) xs)"
    by auto
  from j have "25 * j < length xs" by linarith
  with b show ?thesis by simp
qed

lemma foldl_put_batch_concat: "foldl put_batch t bs = put_batch t (concat bs)"
  by (induction bs arbitrary: t) (simp_all add: put_batch_def)

lemma write_all_eq: "write_all t its = put_batch t its"
  by (simp add: write_all_def foldl_put_batch_concat concat_batches)

lemma find_put_item:
  "find (\<lambda>x. primary_key x = k) (put_item a t) =
     (if primary_key a = k then Some a else find (\<lambda>x. primary_key x = k) t)"
  by (induction t) auto

lemma find_put_batch:
  "find (\<lambda>x. primary_key x = k) (put_batch t as) =
     (case find (\<lambda>x. primary_key x = k) (rev as) of
        Some a \<Rightarrow> Some a | None \<Rightarrow> find (\<lambda>x. primary_key x = k) t)"
  by (induction as rule: rev_induct) (simp_all add: put_batch_snoc find_put_item put_batch_def)

lemma put_item_distinct:
  "distinct (map primary_key t) \<Longrightarrow> distinct (map primary_key (put_item a t))"
  by (induction t) (auto simp: put_item_keys)

lemma put_batch_distinct:
  "distinct (map primary_key t) \<Longrightarrow> distinct (map primary_key (put_batch t as))"
  by (induction as arbitrary: t) (simp_all add: put_batch_Cons put_item_distinct put_batch_def)

lemma put_item_length:
  "length (put_item a t) =
     (if primary_key a \<in> primary_key ` set t then length t else Suc (length t))"
  by (induction t) auto

lemma put_item_mem: "a \<in> set (put_item a t)"
  by (induction t) auto

lemma put_item_subset: "set (put_item a t) \<subseteq> insert a (set t)"
  by (induction t) auto

lemma put_batch_subset: "set (put_batch t as) \<subseteq> set as \<union> set t"
proof (induction as arbitrary: t)
  case Nil show ?case by (simp add: put_batch_def)
next
  case (Cons a as)
  show ?case using Cons [of "put_item a t"] put_item_subset [of a t]
    by (auto simp: put_batch_Cons)
qed


lemma find_SomeD: "find P xs = Some x \<Longrightarrow> x \<in> set xs \<and> P x"
  by (induction xs) (auto split: if_splits)

lemma items_of_type_total:
  "length (items_of_type PAPER_DETAIL its) + length (items_of_type CATEGORY_ITEM its)
   + length (items_of_type AUTHOR_ITEM its) + length (items_of_type KEYWORD_ITEM its) = length its"
proof (induction its)
  case Nil
  show ?case by (simp add: items_of_type_def)
next
  case (Cons a its)
  then show ?case by (cases "item_type a") (simp_all add: items_of_type_def)
qed

text \<open>
  C2 (as amended). For every paper, the projector emits one AuthorItem for each entry
  of the authors list, in the order of the list: exactly \<open>M\<close> items for a list of
  \<open>M\<close> entries. The author name is copied unchanged into the key \<open>AUTHORITEM#<name>\<close>
  and the index key \<open>AUTHOR#<name>\<close>, so two different names, also two names that differ
  in case only, give different keys. When the names of the list are pairwise different,
  the \<open>M\<close> items have pairwise different primary keys. Nothing is removed from a list
  in which a name repeats; the items of a repeated name share their primary key, and it
  is the table that holds at most one author item for each key pair once the items are
  written.
\<close>

theorem author_items_per_entry:
  "length (items_of_type AUTHOR_ITEM (project p)) = length (authors_of p) \<and>
   items_of_type AUTHOR_ITEM (project p) = map (author_item p) (authors_of p) \<and>
   (a \<noteq> b \<longrightarrow> PK (author_item p a) \<noteq> PK (author_item p b) \<and>
      GSI1PK (author_item p a) \<noteq> GSI1PK (author_item p b)) \<and>
   PK (author_item p a) = ''AUTHORITEM#'' @ a \<and> GSI1PK (author_item p a) = Some (''AUTHOR#'' @ a) \<and>
   (distinct (authors_of p) \<longrightarrow>
      distinct (map primary_key (items_of_type AUTHOR_ITEM (project p)))) \<and>
   (distinct (map primary_key t) \<longrightarrow>
      distinct (map primary_key (items_of_type AUTHOR_ITEM (write_all t (all_items papers)))))"
proof -
  have stored: "distinct (map primary_key (items_of_type AUTHOR_ITEM (write_all t (all_items papers))))"
    if "distinct (map primary_key t)"
    using that by (simp add: items_of_type_def write_all_eq put_batch_distinct distinct_map_filter)
  have inj: "inj (\<lambda>au. primary_key (author_item p au))"
    by (rule injI) (simp add: author_item_def primary_key_def)
  have "distinct (map primary_key (author_items p))" if "distinct (authors_of p)"
  proof -
    have "inj_on (\<lambda>au. primary_key (author_item p au)) (set (authors_of p))"
      using inj by (rule inj_on_subset) simp
    with that show ?thesis
      by (simp add: author_items_def distinct_map comp_def)
  qed
  with stored show ?thesis
    by (simp add: author_items_of_project) (simp add: author_items_def author_item_def)
qed

theorem author_items_per_entry_witness:
  "length (items_of_type AUTHOR_ITEM (project two_cased_authors)) = 2 \<and>
   PK (author_item two_cased_authors ''Ada Lovelace'')
     \<noteq> PK (author_item two_cased_authors ''ada lovelace'') \<and>
   distinct (map primary_key
     (items_of_type AUTHOR_ITEM (project two_cased_authors)))"
proof -
  have d: "distinct (authors_of two_cased_authors)"
    and l: "length (authors_of two_cased_authors) = 2"
    by (simp_all add: two_cased_authors_def authors_of_def)
  have n: "''Ada Lovelace'' \<noteq> ''ada lovelace''" by simp
  note t = author_items_per_entry [of two_cased_authors "''Ada Lovelace''" "''ada lovelace''"]
  from t l have 1: "length (items_of_type AUTHOR_ITEM (project two_cased_authors)) = 2"
    by simp
  from t n have 2: "PK (author_item two_cased_authors ''Ada Lovelace'')
     \<noteq> PK (author_item two_cased_authors ''ada lovelace'')"
    by blast
  from t d have 3: "distinct (map primary_key
     (items_of_type AUTHOR_ITEM (project two_cased_authors)))"
    by blast
  from 1 2 3 show ?thesis by blast
qed

text \<open>
  C2 as stated does not hold: a record whose authors list names the same author twice
  gives two AuthorItems for the one (author, paper) pair, with the same primary key.
\<close>

theorem author_items_not_deduplicated:
  "length (items_of_type AUTHOR_ITEM (project repeated_author)) = 2 \<and>
   \<not> distinct (items_of_type AUTHOR_ITEM (project repeated_author)) \<and>
   \<not> distinct (map primary_key
        (items_of_type AUTHOR_ITEM (project repeated_author)))"
  by (simp add: author_items_of_project author_items_def repeated_author_def authors_of_def)

text \<open>
  C6. Running the loader a second time on the same input leaves the table as the first
  run left it, item for item, whatever the table held before the first run: the same
  items and the same number of items, and the same summary. A write puts the item into
  the table; it adds one item when the key pair is new and replaces the item of that key
  pair otherwise, so the table never grows by a repeated key. The items, and their
  keys, are a function of the records (\<open>all_items\<close>).
\<close>

theorem reload_is_idempotent:
  "write_all (write_all t (all_items papers)) (all_items papers) = write_all t (all_items papers) \<and>
   length (write_all (write_all t (all_items papers)) (all_items papers))
     = length (write_all t (all_items papers)) \<and>
   (case main papers t of
      Inl e \<Rightarrow> False
    | Inr (t1, s1) \<Rightarrow> main papers t1 = Inr (t1, s1)) \<and>
   it \<in> set (put_item it t) \<and>
   length (put_item it t) =
     (if primary_key it \<in> primary_key ` set t then length t else Suc (length t)) \<and>
   put_item it (put_item it t) = put_item it t"
proof -
  have 1: "write_all (write_all t its) its = write_all t its" for its
    by (simp add: write_all_eq put_batch_idem)
  have 2: "main papers t = Inr (write_all t (all_items papers), s)
      \<Longrightarrow> main papers (write_all t (all_items papers)) = Inr (write_all t (all_items papers), s)" for s
    by (auto simp: main_def Let_def 1 truediv_def split: if_splits sum.splits)
  have 3: "\<exists>s. main papers t = Inr (write_all t (all_items papers), s)"
    by (simp add: main_def Let_def truediv_def)
  from 2 3 have 4: "case main papers t of Inl e \<Rightarrow> False
    | Inr (t1, s1) \<Rightarrow> main papers t1 = Inr (t1, s1)"
    by auto
  show ?thesis
    using 1 4 by (simp add: put_item_mem put_item_length put_item_idem)
qed

theorem reload_is_idempotent_witness:
  "write_all (write_all [] (all_items [repeated_author, undated])) (all_items [repeated_author, undated])
     = write_all [] (all_items [repeated_author, undated])"
  using reload_is_idempotent [of "[]" "[repeated_author, undated]"] by blast

text \<open>
  C8. For every sequence of derived items, the batches are the consecutive slices of the
  sequence: together they are the whole sequence in order, each batch holds at least
  one and at most 25 items. Writing the batches one after the other is writing every
  item in order. Afterwards the table holds, under every key pair that occurs in the
  sequence, the last item of the sequence with that key pair; so every item's key is in
  the table, and every item itself is when no key pair repeats.
\<close>

theorem writer_batches:
  "concat (batches its) = its \<and>
   list_all (\<lambda>b. length b \<le> 25 \<and> b \<noteq> []) (batches its) \<and>
   write_all t its = put_batch t its \<and>
   find (\<lambda>x. primary_key x = k) (write_all t its) =
     (case find (\<lambda>x. primary_key x = k) (rev its) of
        Some a \<Rightarrow> Some a | None \<Rightarrow> find (\<lambda>x. primary_key x = k) t) \<and>
   primary_key ` set its \<subseteq> primary_key ` set (write_all t its) \<and>
   (distinct (map primary_key its) \<longrightarrow> set its \<subseteq> set (write_all t its))"
proof -
  have 1: "list_all (\<lambda>b. length b \<le> 25 \<and> b \<noteq> []) (batches its)"
    using batches_bounded by (auto simp: list_all_iff)
  have 2: "primary_key ` set its \<subseteq> primary_key ` set (write_all t its)"
    by (simp add: write_all_eq put_batch_keys)
  have 3: "set its \<subseteq> set (write_all t its)" if d: "distinct (map primary_key its)"
  proof
    fix a assume a: "a \<in> set its"
    have "find (\<lambda>x. primary_key x = primary_key a) (rev its) = Some a"
    proof (cases "find (\<lambda>x. primary_key x = primary_key a) (rev its)")
      case None
      with a show ?thesis by (auto simp: find_None_iff)
    next
      case (Some b)
      then have "b \<in> set its" "primary_key b = primary_key a"
        using find_SomeD [of "\<lambda>x. primary_key x = primary_key a" "rev its" b] by auto
      with a d have "b = a" by (meson distinct_map inj_onD)
      with Some show ?thesis by simp
    qed
    then have "find (\<lambda>x. primary_key x = primary_key a) (write_all t its) = Some a"
      by (simp add: write_all_eq find_put_batch)
    then show "a \<in> set (write_all t its)"
      by (auto dest: find_SomeD)
  qed
  show ?thesis
    using 1 2 3 by (simp add: concat_batches write_all_eq find_put_batch)
qed

theorem writer_batches_witness:
  "set (all_items [undated]) \<subseteq> set (write_all [] (all_items [undated]))"
proof -
  have "distinct (map primary_key (all_items [undated]))"
    by code_simp
  with writer_batches [of "all_items [undated]" "[]"] show ?thesis by blast
qed

text \<open>
  C10. On the empty corpus the loader succeeds: no item is derived, no batch is
  written, the table is unchanged, every count is 0 and the ratio is 0. The division
  the guard skips would raise. On every corpus the loader returns a summary.
\<close>

theorem empty_corpus:
  "main [] t = Inr (t, \<lparr>total_papers = 0, total_items = 0, denorm_factor = 0,
      category_items = 0, author_items_count = 0, keyword_items = 0,
      paper_detail_items = 0\<rparr>) \<and>
   all_items [] = [] \<and> batches ([] :: item list) = [] \<and> write_all t [] = t \<and>
   truediv 0 0 = Inl ZeroDivisionError \<and>
   (\<exists>r. main papers t = Inr r)"
  by (simp add: main_def all_items_def items_of_type_def write_all_def batches_def range25_def
      truediv_def Let_def)

section \<open>Properties of the query executors\<close>

lemma dropWhile_to_index:
  "distinct (map f xs) \<Longrightarrow> i < length xs \<Longrightarrow> dropWhile (\<lambda>x. f x \<noteq> f (xs ! i)) xs = drop i xs"
proof (induction xs arbitrary: i)
  case Nil
  then show ?case by simp
next
  case (Cons x xs)
  show ?case
  proof (cases i)
    case 0
    then show ?thesis by simp
  next
    case (Suc j)
    with Cons.prems have j: "j < length xs" and "f x \<notin> f ` set xs" by auto
    then have "f x \<noteq> f (xs ! j)" by (metis image_eqI nth_mem)
    with Cons Suc j show ?thesis by simp
  qed
qed

lemma after_start_at:
  "distinct (map primary_key ms) \<Longrightarrow> i < length ms \<Longrightarrow>
   after_start (Some (primary_key (ms ! i))) ms = drop (Suc i) ms"
  by (simp add: after_start_def dropWhile_to_index)

lemma selected_start [simp]: "selected (q\<lparr>ExclusiveStartKey := k\<rparr>) = selected q"
  by (auto simp: selected_def fun_eq_iff split: option.splits)

lemma index_order_start [simp]:
  "index_order (q\<lparr>ExclusiveStartKey := k\<rparr>) t = index_order q t"
  by (simp add: index_order_def)

lemma rejected_start [simp]: "rejected (q\<lparr>ExclusiveStartKey := k\<rparr>) = rejected q"
  by (simp add: rejected_def)

lemma paginate_from:
  assumes n: "0 < page_size st" and d: "distinct (map primary_key (index_order q (items st)))"
    and ok: "rejected q = None" and lim: "Limit q = None"
  shows "j \<le> length (index_order q (items st)) \<Longrightarrow>
     after_start k (index_order q (items st)) = drop j (index_order q (items st)) \<Longrightarrow>
     paginate st (q\<lparr>ExclusiveStartKey := k\<rparr>) acc
       = Some (Inr (acc @ drop j (index_order q (items st))))"
proof (induction "length (index_order q (items st)) - j" arbitrary: j k acc rule: less_induct)
  case less
  let ?ms = "index_order q (items st)" and ?n = "page_size st"
  let ?rest = "drop j ?ms"
  let ?page = "take ?n ?rest"
  define lek where "lek =
     (if ?page \<noteq> [] \<and> ?n \<le> length ?rest then Some (primary_key (last ?page)) else None)"
  have tq: "table_query st (q\<lparr>ExclusiveStartKey := k\<rparr>) =
      Inr \<lparr>Items = ?page, LastEvaluatedKey = lek\<rparr>"
    using ok lim less.prems(2) by (simp add: table_query_def Let_def lek_def)
  show ?case
  proof (cases "?page \<noteq> [] \<and> ?n \<le> length ?rest")
    case False
    then have l: "lek = None" unfolding lek_def by (rule if_not_P)
    from False n have pr: "?page = ?rest" by (cases "?rest = []") auto
    show ?thesis
      by (subst paginate.simps) (simp add: tq l pr del: take_eq_Nil take_eq_Nil2)
  next
    case True
    then have l: "lek = Some (primary_key (last ?page))" unfolding lek_def by (rule if_P)
    from True n have "?n \<le> length ?ms - j" and "j < length ?ms" by auto
    then have len: "j + ?n \<le> length ?ms" by linarith
    have lp: "last ?page = ?ms ! (j + ?n - 1)"
    proof -
      have "length ?page = ?n" using True by simp
      then have "last ?page = ?page ! (?n - 1)" using True by (simp add: last_conv_nth)
      also have "\<dots> = ?rest ! (?n - 1)" using n by simp
      also have "\<dots> = ?ms ! (j + (?n - 1))" using len n by (simp add: nth_drop)
      finally show ?thesis using n by simp
    qed
    have idx: "j + ?n - 1 < length ?ms" using len n by simp
    have "after_start (Some (primary_key (?ms ! (j + ?n - 1)))) ?ms = drop (Suc (j + ?n - 1)) ?ms"
      by (rule after_start_at [OF d idx])
    then have nxt: "after_start (Some (primary_key (last ?page))) ?ms = drop (j + ?n) ?ms"
      using n by (simp add: lp)
    have dec: "length ?ms - (j + ?n) < length ?ms - j" using len n by simp
    have rec: "paginate st (q\<lparr>ExclusiveStartKey := Some (primary_key (last ?page))\<rparr>) (acc @ ?page)
        = Some (Inr ((acc @ ?page) @ drop (j + ?n) ?ms))"
      by (rule less.hyps [OF dec len nxt])
    have cat: "?page @ drop (j + ?n) ?ms = ?rest"
      by (metis add.commute append_take_drop_id drop_drop)
    have "paginate st (q\<lparr>ExclusiveStartKey := k\<rparr>) acc
        = paginate st (q\<lparr>ExclusiveStartKey := Some (primary_key (last ?page))\<rparr>) (acc @ ?page)"
      by (subst paginate.simps) (simp add: tq l)
    also have "\<dots> = Some (Inr (acc @ ?rest))"
      unfolding rec using cat by simp
    finally show ?thesis .
  qed
qed

lemma paginate_all:
  assumes "0 < page_size st" and "distinct (map primary_key (items st))"
    and "rejected q = None" and "Limit q = None" and "ExclusiveStartKey q = None"
  shows "paginate st q [] = Some (Inr (index_order q (items st)))"
proof -
  have "distinct (map primary_key (filter (selected q) (items st)))"
    using assms(2) by (simp add: distinct_map_filter)
  then have "distinct (map primary_key (sort_key (\<lambda>it. or_empty (index_sk (IndexName q) it)) (filter (selected q) (items st))))"
    by (metis distinct_map set_sort distinct_sort)
  then have d: "distinct (map primary_key (index_order q (items st)))"
    by (simp add: index_order_def Let_def distinct_rev rev_map [symmetric])
  have "paginate st (q\<lparr>ExclusiveStartKey := None\<rparr>) [] = Some (Inr ([] @ drop 0 (index_order q (items st))))"
    by (rule paginate_from [OF assms(1) d assms(3) assms(4)]) (simp_all add: after_start_def)
  moreover have "q\<lparr>ExclusiveStartKey := None\<rparr> = q" using assms(5) by simp
  ultimately show ?thesis by simp
qed

lemma paginate_rejected: "rejected q = Some err \<Longrightarrow> paginate st q acc = Some (Inl err)"
  by (subst paginate.simps) (simp add: table_query_def)

lemma append_less_same_length:
  "length a = length b \<Longrightarrow> a < b \<Longrightarrow> a @ x < b @ y" for a b :: string
  by (induction a b rule: list_induct2) (auto simp: less_list_code)

lemma append_le_cancel: "a @ x \<le> a @ y \<longleftrightarrow> x \<le> y" for a :: string
  by (induction a) (auto simp: less_eq_list_code)

lemma le_append_self: "x \<le> x @ y" for x :: string
  by (induction x) (auto simp: less_eq_list_code)

lemma below_z_le_sentinel: "id_starts_below_z i \<Longrightarrow> i \<le> ''zzzzzzz''"
  by (cases i) (auto simp: id_starts_below_z_def less_eq_list_code)

lemma range_lower:
  "length s = length e \<Longrightarrow> s \<le> e \<Longrightarrow> s @ ''#'' \<le> e @ ''#'' @ i" for s e :: string
proof (cases "s = e")
  case True
  then show ?thesis using le_append_self [of "''#''" i] by (simp add: append_le_cancel)
next
  case False
  assume "length s = length e" "s \<le> e"
  with False have "s < e" by simp
  then show ?thesis
    using append_less_same_length [OF \<open>length s = length e\<close>, of "''#''" "''#'' @ i"]
    by (simp add: less_imp_le)
qed

lemma range_upper: "e @ ''#'' @ i \<le> e @ ''#zzzzzzz'' \<longleftrightarrow> i \<le> ''zzzzzzz''" for e :: string
  using append_le_cancel [of "e @ ''#''" i "''zzzzzzz''"] by simp

lemma range_above:
  "length d = length e \<Longrightarrow> e < d \<Longrightarrow> \<not> d @ ''#'' @ i \<le> e @ ''#zzzzzzz''" for d e :: string
  using append_less_same_length [of e d "''#zzzzzzz''" "''#'' @ i"] by (simp add: not_le)

lemma date_range_order:
  "index_order (date_range_request c s e) t = date_range_items t c s e"
proof -
  have "selected (date_range_request c s e) =
      (\<lambda>it. PK it = ''CATEGORY#'' @ c \<and> s @ ''#'' \<le> SK it \<and> SK it \<le> e @ ''#zzzzzzz'')"
    by (simp add: selected_def date_range_request_def index_pk_def index_sk_def in_range_def
        fun_eq_iff)
  then show ?thesis
    by (simp add: index_order_def date_range_items_def)
      (simp add: date_range_request_def index_sk_def or_empty_def)
qed

lemma date_range_rejected:
  "rejected (date_range_request c s e) =
     (if e @ ''#zzzzzzz'' < s @ ''#'' then Some ValidationException else None)"
  by (simp add: rejected_def date_range_request_def)

lemma date_range_returns:
  assumes "0 < page_size st" and "distinct (map primary_key (items st))"
  shows "query_papers_in_date_range st c s e =
     Some (if e @ ''#zzzzzzz'' < s @ ''#'' then Inl ValidationException
           else Inr (date_range_items (items st) c s e))"
proof (cases "e @ ''#zzzzzzz'' < s @ ''#''")
  case True
  then show ?thesis
    by (simp add: query_papers_in_date_range_def paginate_rejected date_range_rejected)
next
  case False
  then have r: "rejected (date_range_request c s e) = None"
    by (simp add: date_range_rejected)
  have "paginate st (date_range_request c s e) []
      = Some (Inr (index_order (date_range_request c s e) (items st)))"
    by (rule paginate_all [OF assms r]) (simp_all add: date_range_request_def)
  with False show ?thesis
    by (simp add: query_papers_in_date_range_def date_range_order)
qed

lemma cat_item_in_range:
  "cat_item p c \<in> set (date_range_items t c s e) \<longleftrightarrow>
     cat_item p c \<in> set t \<and> s @ ''#'' \<le> date_id p \<and> date_id p \<le> e @ ''#zzzzzzz''"
  by (auto simp: date_range_items_def cat_item_def)

text \<open>
  C3. For every category \<open>c\<close>, start \<open>s\<close> and end \<open>e\<close>, on a table with unique
  primary keys and a store that returns at least one item per page, the date-range
  executor returns, after following every page, exactly the items of partition
  \<open>CATEGORY#c\<close> whose sort key lies between \<open>s#\<close> and \<open>e#zzzzzzz\<close>, both
  included, in ascending sort-key order; when the upper bound is below the lower bound
  the store rejects the request. For dates \<open>s \<le> e\<close> of equal length: a paper of the
  category published on \<open>e\<close> is returned exactly when its identifier is at most
  \<open>zzzzzzz\<close>, which holds for every identifier that starts below \<open>z\<close> (every arXiv
  identifier); a paper published on a later date of that length is not returned.
\<close>

theorem date_range_query:
  "0 < page_size st \<Longrightarrow> distinct (map primary_key (items st)) \<Longrightarrow>
   query_papers_in_date_range st c s e =
     Some (if e @ ''#zzzzzzz'' < s @ ''#'' then Inl ValidationException
           else Inr (date_range_items (items st) c s e)) \<and>
   sorted (map SK (date_range_items (items st) c s e)) \<and>
   (length s = length e \<and> s \<le> e \<longrightarrow>
      query_papers_in_date_range st c s e = Some (Inr (date_range_items (items st) c s e)) \<and>
      (cat_item p c \<in> set (items st) \<and> published_date p = e \<longrightarrow>
         (cat_item p c \<in> set (date_range_items (items st) c s e)
            \<longleftrightarrow> fmt (p_arxiv_id p) \<le> ''zzzzzzz'') \<and>
         (id_starts_below_z (fmt (p_arxiv_id p))
            \<longrightarrow> cat_item p c \<in> set (date_range_items (items st) c s e))) \<and>
      (length (published_date p) = length e \<and> e < published_date p \<longrightarrow>
         cat_item p c \<notin> set (date_range_items (items st) c s e)))"
proof -
  assume a: "0 < page_size st" "distinct (map primary_key (items st))"
  note q = date_range_returns [OF a, of c s e]
  have srt: "sorted (map SK (date_range_items (items st) c s e))"
    by (simp add: date_range_items_def)
  have rest: "query_papers_in_date_range st c s e = Some (Inr (date_range_items (items st) c s e)) \<and>
      (cat_item p c \<in> set (items st) \<and> published_date p = e \<longrightarrow>
         (cat_item p c \<in> set (date_range_items (items st) c s e)
            \<longleftrightarrow> fmt (p_arxiv_id p) \<le> ''zzzzzzz'') \<and>
         (id_starts_below_z (fmt (p_arxiv_id p))
            \<longrightarrow> cat_item p c \<in> set (date_range_items (items st) c s e))) \<and>
      (length (published_date p) = length e \<and> e < published_date p \<longrightarrow>
         cat_item p c \<notin> set (date_range_items (items st) c s e))"
    if l: "length s = length e" and le: "s \<le> e"
  proof -
    have "s @ ''#'' \<le> e @ ''#'' @ ''zzzzzzz''" by (rule range_lower [OF l le])
    then have "\<not> e @ ''#zzzzzzz'' < s @ ''#''" by (simp add: not_less)
    with q have 1: "query_papers_in_date_range st c s e
        = Some (Inr (date_range_items (items st) c s e))" by simp
    have 2: "cat_item p c \<in> set (date_range_items (items st) c s e)
            \<longleftrightarrow> fmt (p_arxiv_id p) \<le> ''zzzzzzz''"
      if "cat_item p c \<in> set (items st)" "published_date p = e"
      using that range_lower [OF l le, of "fmt (p_arxiv_id p)"]
        range_upper [of e "fmt (p_arxiv_id p)"]
      by (simp add: cat_item_in_range date_id_def)
    have 3: "cat_item p c \<notin> set (date_range_items (items st) c s e)"
      if "length (published_date p) = length e" "e < published_date p"
      using range_above [OF that, of "fmt (p_arxiv_id p)"]
      by (simp add: cat_item_in_range date_id_def)
    from 1 2 3 below_z_le_sentinel show ?thesis by blast
  qed
  from q srt rest show ?thesis by blast
qed

theorem date_range_query_witness:
  "query_papers_in_date_range sample_store ''cs.AI'' ''2024-01-01'' ''2024-01-31''
     = Some (Inr (date_range_items (items sample_store) ''cs.AI'' ''2024-01-01'' ''2024-01-31'')) \<and>
   cat_item january_paper ''cs.AI''
     \<in> set (date_range_items (items sample_store) ''cs.AI'' ''2024-01-01'' ''2024-01-31'') \<and>
   cat_item february_paper ''cs.AI''
     \<notin> set (date_range_items (items sample_store) ''cs.AI'' ''2024-01-01'' ''2024-01-31'')"
proof -
  have n: "0 < page_size sample_store" by (simp add: sample_store_def)
  have d: "distinct (map primary_key (items sample_store))" by code_simp
  have l: "length ''2024-01-01'' = length ''2024-01-31''" by simp
  have le: "''2024-01-01'' \<le> (''2024-01-31'' :: string)" by code_simp
  have j1: "cat_item january_paper ''cs.AI'' \<in> set (items sample_store)" by code_simp
  have j2: "published_date january_paper = ''2024-01-31''" by code_simp
  have j3: "id_starts_below_z (fmt (p_arxiv_id january_paper))" by code_simp
  have f1: "length (published_date february_paper) = length ''2024-01-31''" by code_simp
  have f2: "''2024-01-31'' < published_date february_paper" by code_simp
  from date_range_query [OF n d, of "''cs.AI''" "''2024-01-01''" "''2024-01-31''" january_paper]
    l le j1 j2 j3
  have a: "query_papers_in_date_range sample_store ''cs.AI'' ''2024-01-01'' ''2024-01-31''
     = Some (Inr (date_range_items (items sample_store) ''cs.AI'' ''2024-01-01'' ''2024-01-31'')) \<and>
   cat_item january_paper ''cs.AI''
     \<in> set (date_range_items (items sample_store) ''cs.AI'' ''2024-01-01'' ''2024-01-31'')"
    by blast
  from date_range_query [OF n d, of "''cs.AI''" "''2024-01-01''" "''2024-01-31''" february_paper]
    l le f1 f2
  have b: "cat_item february_paper ''cs.AI''
     \<notin> set (date_range_items (items sample_store) ''cs.AI'' ''2024-01-01'' ''2024-01-31'')"
    by blast
  from a b show ?thesis by blast
qed

lemma lower_idem: "lower (lower w) = lower w"
  by (simp add: lower_def lower_char_def lower_char_not_upper [unfolded lower_char_def])

lemma lower_of_lowercase: "list_all is_lower w \<Longrightarrow> lower w = w"
proof -
  have "is_lower c \<Longrightarrow> lower_char c = c" for c
    by (auto simp: is_lower_def is_upper_def lower_char_def)
  then show "list_all is_lower w \<Longrightarrow> lower w = w"
    by (simp add: lower_def list_all_iff map_idI)
qed

lemma keywords_of_distinct: "distinct (keywords_of p)"
  unfolding keywords_of_def
  using top_k_ranked ranks_irrefl by (rule sorted_wrt_irrefl_distinct)

lemma keywords_of_lowercase: "kw \<in> set (keywords_of p) \<Longrightarrow> lower kw = kw"
  using top_k_set [of "Some (abstract_of p)" 10] tokenize_lower
  by (auto simp: keywords_of_def intro!: lower_of_lowercase)

lemma kw_items_fresh:
  "distinct ks \<Longrightarrow> seen \<inter> set ks = {} \<Longrightarrow> kw_items p seen ks = map (kw_item p) ks"
  by (induction p seen ks rule: kw_items.induct) auto

lemma keyword_items_of_project:
  "items_of_type KEYWORD_ITEM (project p) = map (kw_item p) (keywords_of p)"
proof -
  have 1: "items_of_type KEYWORD_ITEM (map (cat_item p) cs) = []" for cs
    unfolding items_of_type_def by (rule filter_none) (auto simp: cat_item_def)
  have 2: "items_of_type KEYWORD_ITEM (author_items p) = []"
    unfolding items_of_type_def by (rule filter_none) (auto simp: author_items_def author_item_def)
  have 3: "items_of_type KEYWORD_ITEM (map (kw_item p) ks) = map (kw_item p) ks" for ks
    unfolding items_of_type_def by (rule filter_all) (auto simp: kw_item_def)
  have 4: "items_of_type ty (xs @ ys) = items_of_type ty xs @ items_of_type ty ys" for ty xs ys
    by (simp add: items_of_type_def)
  have 5: "items_of_type KEYWORD_ITEM (detail_item p # xs) = items_of_type KEYWORD_ITEM xs" for xs
    by (simp add: items_of_type_def detail_item_def)
  have 6: "kw_items p {} (keywords_of p) = map (kw_item p) (keywords_of p)"
    by (rule kw_items_fresh) (simp_all add: keywords_of_distinct)
  show ?thesis
    by (simp add: project_def 1 2 3 4 5 6)
qed

text \<open>
  C5. For every store state, limit and keyword, the keyword executor gives the same
  answer for any two keywords that are equal up to the case of their ASCII letters (as
  \<open>Network\<close> and \<open>network\<close>), and the same answer for a keyword and its lowercase
  form: only the lower-cased keyword enters the partition key \<open>KW#<keyword>\<close>. The
  keyword items of every paper carry the partition keys \<open>KW#<kw>\<close> of the paper's
  keywords, each of which is its own lowercase form.
\<close>

theorem keyword_query_ignores_case:
  "(lower w = lower w' \<longrightarrow>
      query_papers_by_keyword st w limit = query_papers_by_keyword st w' limit) \<and>
   query_papers_by_keyword st (lower w) limit = query_papers_by_keyword st w limit \<and>
   map GSI2PK (items_of_type KEYWORD_ITEM (project p))
     = map (\<lambda>kw. Some (''KW#'' @ kw)) (keywords_of p) \<and>
   list_all (\<lambda>kw. lower kw = kw) (keywords_of p)"
proof -
  have 1: "map GSI2PK (items_of_type KEYWORD_ITEM (project p))
     = map (\<lambda>kw. Some (''KW#'' @ kw)) (keywords_of p)"
    by (simp add: keyword_items_of_project kw_item_def)
  have 2: "list_all (\<lambda>kw. lower kw = kw) (keywords_of p)"
    using keywords_of_lowercase by (auto simp: list_all_iff)
  show ?thesis
    using 1 2 by (simp add: query_papers_by_keyword_def lower_idem)
qed

theorem keyword_query_ignores_case_witness:
  "query_papers_by_keyword sample_store ''Network'' 20
     = query_papers_by_keyword sample_store ''network'' 20"
proof -
  have "lower ''Network'' = lower ''network''" by code_simp
  with keyword_query_ignores_case [of "''Network''" "''network''" sample_store 20]
  show ?thesis by blast
qed

lemma filter_key_find:
  "distinct (map f t) \<Longrightarrow>
   filter (\<lambda>x. f x = k) t = (case find (\<lambda>x. f x = k) t of None \<Rightarrow> [] | Some x \<Rightarrow> [x])"
proof (induction t)
  case Nil
  show ?case by simp
next
  case (Cons a t)
  show ?case
  proof (cases "f a = k")
    case True
    from Cons.prems have "f a \<notin> f ` set t" by simp
    with True have "\<And>x. x \<in> set t \<Longrightarrow> f x \<noteq> k" by (metis imageI)
    then have "filter (\<lambda>x. f x = k) t = []" by (simp add: filter_none)
    with True show ?thesis by simp
  next
    case False
    with Cons show ?thesis by simp
  qed
qed

lemma project_cases:
  "x \<in> set (project p) \<Longrightarrow>
   x = detail_item p \<or> x \<in> cat_item p ` set (categories_of p)
   \<or> x \<in> author_item p ` set (authors_of p) \<or> x \<in> kw_item p ` set (keywords_of p)"
  using kw_items_subset [of p "{}" "keywords_of p"]
  by (auto simp: project_def author_items_def)

lemma project_selected_by_id:
  "x \<in> set (project p) \<Longrightarrow>
   selected (id_request i) x \<longleftrightarrow> primary_key x = detail_key i"
proof -
  assume "x \<in> set (project p)"
  then consider "x = detail_item p" | c where "x = cat_item p c" | a where "x = author_item p a"
    | k where "x = kw_item p k"
    using project_cases [of x p] by blast
  then show ?thesis
  proof cases
    case 1
    then show ?thesis
      by (simp add: selected_def id_request_def index_pk_def index_sk_def in_range_def
          primary_key_def detail_item_def detail_key_def)
  next
    case 2
    then show ?thesis
      by (simp add: selected_def id_request_def index_pk_def index_sk_def in_range_def
          primary_key_def cat_item_def detail_key_def)
  next
    case 3
    then show ?thesis
      by (simp add: selected_def id_request_def index_pk_def index_sk_def in_range_def
          primary_key_def author_item_def detail_key_def)
  next
    case 4
    then show ?thesis
      by (simp add: selected_def id_request_def index_pk_def index_sk_def in_range_def
          primary_key_def kw_item_def detail_key_def)
  qed
qed

lemma all_items_selected_by_id:
  "x \<in> set (all_items papers) \<Longrightarrow>
   selected (id_request i) x \<longleftrightarrow> primary_key x = detail_key i"
  by (auto simp: all_items_def dest: project_selected_by_id)

lemma find_snoc_only:
  "(\<And>y. y \<in> set ys \<Longrightarrow> \<not> P y) \<Longrightarrow> find P (ys @ [d]) = (if P d then Some d else None)"
  by (induction ys) auto

lemma find_append_first:
  "find P (xs @ ys) = (case find P xs of None \<Rightarrow> find P ys | Some x \<Rightarrow> Some x)"
  by (induction xs) auto

lemma find_detail_in_project:
  "find (\<lambda>x. primary_key x = detail_key i) (rev (project p))
     = (if fmt (p_arxiv_id p) = i then Some (detail_item p) else None)"
proof -
  define ys where "ys = rev (map (cat_item p) (categories_of p) @ author_items p
          @ kw_items p {} (keywords_of p))"
  define P where "P = (\<lambda>x. primary_key x = detail_key i)"
  have others: "\<not> P y" if "y \<in> set ys" for y
  proof -
    from that have "y \<in> set (project p)"
      by (auto simp: ys_def project_def)
    then have "selected (id_request i) y \<longleftrightarrow> P y"
      unfolding P_def by (simp add: project_selected_by_id)
    moreover have "\<not> selected (id_request i) y"
      using that kw_items_subset [of p "{}" "keywords_of p"]
      by (auto simp: ys_def selected_def id_request_def index_pk_def cat_item_def
          author_items_def author_item_def kw_item_def)
    ultimately show ?thesis by simp
  qed
  have Pd: "P (detail_item p) \<longleftrightarrow> fmt (p_arxiv_id p) = i"
    by (simp add: P_def primary_key_def detail_item_def detail_key_def)
  have "rev (project p) = ys @ [detail_item p]"
    by (simp add: project_def ys_def)
  then have "find P (rev (project p)) = (if P (detail_item p) then Some (detail_item p) else None)"
    using find_snoc_only [of ys P "detail_item p"] others by simp
  then show ?thesis
    unfolding Pd unfolding P_def .
qed

lemma find_detail_in_all_items:
  "find (\<lambda>x. primary_key x = detail_key i) (rev (all_items papers))
     = map_option detail_item (find (\<lambda>p. fmt (p_arxiv_id p) = i) (rev papers))"
proof (induction papers rule: rev_induct)
  case Nil
  show ?case by (simp add: all_items_def)
next
  case (snoc p ps)
  have "all_items (ps @ [p]) = all_items ps @ project p" by (simp add: all_items_def)
  then show ?case
    using snoc by (simp add: find_append_first find_detail_in_project)
qed

lemma table_query_unlimited:
  "rejected q = None \<Longrightarrow> Limit q = None \<Longrightarrow> ExclusiveStartKey q = None \<Longrightarrow>
   \<exists>lek. table_query st q =
     Inr \<lparr>Items = take (page_size st) (index_order q (items st)), LastEvaluatedKey = lek\<rparr>"
  by (simp add: table_query_def Let_def after_start_def)

lemma get_paper_by_id_loaded:
  assumes "0 < n"
  shows "get_paper_by_id \<lparr>items = write_all [] (all_items papers), page_size = n\<rparr> i
     = Inr (map_option detail_item (find (\<lambda>p. fmt (p_arxiv_id p) = i) (rev papers)))"
proof -
  let ?t = "write_all [] (all_items papers)" and ?k = "detail_key i"
  define r where "r = map_option detail_item (find (\<lambda>p. fmt (p_arxiv_id p) = i) (rev papers))"
  define page where "page = (case r of None \<Rightarrow> [] | Some x \<Rightarrow> [x])"
  have d: "distinct (map primary_key ?t)"
    by (simp add: write_all_eq put_batch_distinct)
  have sub: "set ?t \<subseteq> set (all_items papers)"
    using put_batch_subset [of "[]" "all_items papers"] by (simp add: write_all_eq)
  have fr: "find (\<lambda>x. primary_key x = ?k) ?t = r"
    by (simp add: r_def write_all_eq find_put_batch find_detail_in_all_items split: option.splits)
  have "filter (selected (id_request i)) ?t = filter (\<lambda>x. primary_key x = ?k) ?t"
    by (rule filter_cong) (use sub all_items_selected_by_id in auto)
  also have "\<dots> = (case find (\<lambda>x. primary_key x = ?k) ?t of None \<Rightarrow> [] | Some x \<Rightarrow> [x])"
    by (rule filter_key_find [OF d])
  finally have f: "filter (selected (id_request i)) ?t = page"
    unfolding fr page_def .
  have "sort_key (\<lambda>it. or_empty (index_sk PaperIdIndex it)) page = page"
    by (cases r) (simp_all add: page_def)
  then have io: "index_order (id_request i) ?t = page"
    unfolding index_order_def f by (simp add: id_request_def)
  have rj: "rejected (id_request i) = None" by (simp add: rejected_def id_request_def)
  have tk: "take n page = page"
    using assms by (cases r) (simp_all add: page_def)
  have "\<exists>lek. table_query \<lparr>items = ?t, page_size = n\<rparr> (id_request i) =
     Inr \<lparr>Items = take (page_size \<lparr>items = ?t, page_size = n\<rparr>)
                      (index_order (id_request i) (items \<lparr>items = ?t, page_size = n\<rparr>)),
           LastEvaluatedKey = lek\<rparr>"
    by (rule table_query_unlimited [OF rj]) (simp_all add: id_request_def)
  then obtain lek where tq: "table_query \<lparr>items = ?t, page_size = n\<rparr> (id_request i) =
     Inr \<lparr>Items = page, LastEvaluatedKey = lek\<rparr>"
    by (auto simp: io tk)
  have "get_paper_by_id \<lparr>items = ?t, page_size = n\<rparr> i = Inr r"
    unfolding get_paper_by_id_def id_request_def [symmetric] tq
    by (cases r) (simp_all add: page_def)
  then show ?thesis unfolding r_def .
qed

text \<open>
  C4. On a table filled by the loader from any corpus (with a store whose pages hold at
  least one item), the lookup by id returns no store error and at most one item: the
  detail item of the last record of the corpus with that id, which is of variant
  \<open>PAPER_DETAIL\<close> and carries the record's id, title, authors, abstract, categories,
  keywords and timestamp; never a category, author or keyword item. For an id that no
  record of the corpus has, it returns \<^verbatim>\<open>None\<close>.
\<close>

theorem paper_by_id:
  "0 < n \<Longrightarrow>
   get_paper_by_id \<lparr>items = write_all [] (all_items papers), page_size = n\<rparr> i
     = Inr (map_option detail_item (find (\<lambda>p. fmt (p_arxiv_id p) = i) (rev papers))) \<and>
   (get_paper_by_id \<lparr>items = write_all [] (all_items papers), page_size = n\<rparr> i = Inr (Some it)
      \<longrightarrow> item_type it = PAPER_DETAIL \<and>
          (\<exists>p \<in> set papers. fmt (p_arxiv_id p) = i \<and> it = detail_item p \<and>
             arxiv_id it = p_arxiv_id p \<and> title it = p_title p \<and>
             authors it = Some (authors_of p) \<and> abstract it = Some (abstract_of p) \<and>
             categories it = categories_of p \<and> keywords' it = Some (keywords_of p) \<and>
             published it = p_published p)) \<and>
   ((\<forall>p \<in> set papers. fmt (p_arxiv_id p) \<noteq> i)
      \<longrightarrow> get_paper_by_id \<lparr>items = write_all [] (all_items papers), page_size = n\<rparr> i
            = Inr None)"
proof -
  assume n: "0 < n"
  note g = get_paper_by_id_loaded [OF n, of papers i]
  have 2: "item_type it = PAPER_DETAIL \<and>
          (\<exists>p \<in> set papers. fmt (p_arxiv_id p) = i \<and> it = detail_item p \<and>
             arxiv_id it = p_arxiv_id p \<and> title it = p_title p \<and>
             authors it = Some (authors_of p) \<and> abstract it = Some (abstract_of p) \<and>
             categories it = categories_of p \<and> keywords' it = Some (keywords_of p) \<and>
             published it = p_published p)"
    if "get_paper_by_id \<lparr>items = write_all [] (all_items papers), page_size = n\<rparr> i = Inr (Some it)"
  proof -
    from that g obtain p where p: "find (\<lambda>p. fmt (p_arxiv_id p) = i) (rev papers) = Some p"
      and it: "it = detail_item p"
      by auto
    from find_SomeD [OF p] have "p \<in> set papers" "fmt (p_arxiv_id p) = i" by auto
    with it show ?thesis by (auto simp: detail_item_def)
  qed
  have 3: "get_paper_by_id \<lparr>items = write_all [] (all_items papers), page_size = n\<rparr> i = Inr None"
    if "\<forall>p \<in> set papers. fmt (p_arxiv_id p) \<noteq> i"
  proof -
    from that have "find (\<lambda>p. fmt (p_arxiv_id p) = i) (rev papers) = None"
      by (simp add: find_None_iff)
    with g show ?thesis by simp
  qed
  from g 2 3 show ?thesis by blast
qed

theorem paper_by_id_witness:
  "get_paper_by_id sample_store ''2401.00001'' = Inr (Some (detail_item january_paper)) \<and>
   get_paper_by_id sample_store ''2403.00003'' = Inr None"
proof -
  have n: "0 < (1::nat)" by simp
  have a: "find (\<lambda>p. fmt (p_arxiv_id p) = ''2401.00001'') (rev [january_paper, february_paper])
      = Some january_paper"
    by (simp add: january_paper_def february_paper_def fmt_def)
  have b: "\<forall>p \<in> set [january_paper, february_paper]. fmt (p_arxiv_id p) \<noteq> ''2403.00003''"
    by (simp add: january_paper_def february_paper_def fmt_def)
  from paper_by_id [OF n, of "[january_paper, february_paper]" "''2401.00001''"] a
  have 1: "get_paper_by_id sample_store ''2401.00001'' = Inr (Some (detail_item january_paper))"
    unfolding sample_store_def by simp
  from paper_by_id [OF n, of "[january_paper, february_paper]" "''2403.00003''"] b
  have 2: "get_paper_by_id sample_store ''2403.00003'' = Inr None"
    unfolding sample_store_def by blast
  from 1 2 show ?thesis by blast
qed

section \<open>Properties of the read API\<close>


































end
